theory Spec2Isabelle
  imports Complex_Main
begin

section \<open>Data model (the tables of \<^verbatim>\<open>defineSchema\<close>)\<close>

text \<open>
  Convex document ids are opaque non-empty strings, so the JavaScript truthiness test on an
  optional id (\<^verbatim>\<open>!leak.submittedBy\<close>, \<^verbatim>\<open>if (request.submittedBy)\<close>) is the test for
  presence; an optional id is an \<open>option\<close>. Each table is a finite map from ids to
  documents. Only the fields that the consensus engine reads or writes are kept.
  Points are JavaScript numbers holding integers; they are modelled as \<open>int\<close>.
\<close>

type_synonym user_id = string
type_synonym leak_id = string
type_synonym request_id = string

datatype closer = User | Verification

record leak =
  leakText :: string
  submittedBy :: "user_id option"
  verifiedBy :: "user_id list option"
  isFullyVerified :: bool

record request =
  closed :: bool
  closedBy :: "closer option"
  leaks :: "leak_id list"
  requestSubmittedBy :: "user_id option"

record user =
  points :: "int option"

record db =
  leaksT :: "leak_id \<rightharpoonup> leak"
  requestsT :: "request_id \<rightharpoonup> request"
  usersT :: "user_id \<rightharpoonup> user"

section \<open>Similarity scorer (src/convex/crons.ts, \<^verbatim>\<open>normalizeText\<close> to \<^verbatim>\<open>calculateSimilarity\<close>)\<close>

text \<open>
  A text is the list of its UTF-16 code units; the model covers the code units below 256
  (Latin-1), one \<open>char\<close> each, so \<open>length\<close> is JavaScript's \<^verbatim>\<open>.length\<close>. The class
  \<^verbatim>\<open>\s\<close> of a regular expression and the characters removed by \<^verbatim>\<open>trim\<close> are the same
  set: tab, line feed, vertical tab, form feed, carriage return, space and no-break space.
\<close>

definition isWhitespace :: "char \<Rightarrow> bool" where
  "isWhitespace c =
     (c \<in> set [CHR 0x09, CHR 0x0A, CHR 0x0B, CHR 0x0C, CHR 0x0D, CHR 0x20, CHR 0xA0])"

definition upperCaseChars :: "char list" where
  "upperCaseChars = ''ABCDEFGHIJKLMNOPQRSTUVWXYZ'' @
     [CHR 0xC0, CHR 0xC1, CHR 0xC2, CHR 0xC3, CHR 0xC4, CHR 0xC5, CHR 0xC6, CHR 0xC7,
      CHR 0xC8, CHR 0xC9, CHR 0xCA, CHR 0xCB, CHR 0xCC, CHR 0xCD, CHR 0xCE, CHR 0xCF,
      CHR 0xD0, CHR 0xD1, CHR 0xD2, CHR 0xD3, CHR 0xD4, CHR 0xD5, CHR 0xD6,
      CHR 0xD8, CHR 0xD9, CHR 0xDA, CHR 0xDB, CHR 0xDC, CHR 0xDD, CHR 0xDE]"

definition lowerCaseChars :: "char list" where
  "lowerCaseChars = ''abcdefghijklmnopqrstuvwxyz'' @
     [CHR 0xE0, CHR 0xE1, CHR 0xE2, CHR 0xE3, CHR 0xE4, CHR 0xE5, CHR 0xE6, CHR 0xE7,
      CHR 0xE8, CHR 0xE9, CHR 0xEA, CHR 0xEB, CHR 0xEC, CHR 0xED, CHR 0xEE, CHR 0xEF,
      CHR 0xF0, CHR 0xF1, CHR 0xF2, CHR 0xF3, CHR 0xF4, CHR 0xF5, CHR 0xF6,
      CHR 0xF8, CHR 0xF9, CHR 0xFA, CHR 0xFB, CHR 0xFC, CHR 0xFD, CHR 0xFE]"

definition toLowerChar :: "char \<Rightarrow> char" where
  "toLowerChar c =
     (case map_of (zip upperCaseChars lowerCaseChars) c of None \<Rightarrow> c | Some l \<Rightarrow> l)"

definition toLowerCase :: "string \<Rightarrow> string" where
  "toLowerCase text = map toLowerChar text"

definition trim :: "string \<Rightarrow> string" where
  "trim text = rev (dropWhile isWhitespace (rev (dropWhile isWhitespace text)))"

text \<open>\<^verbatim>\<open>.replace(/\s+/g, " ")\<close>: every maximal run of whitespace becomes one space.\<close>

function collapseWhitespace :: "string \<Rightarrow> string" where
  "collapseWhitespace [] = []"
| "collapseWhitespace (c # cs) =
     (if isWhitespace c then CHR 0x20 # collapseWhitespace (dropWhile isWhitespace cs)
      else c # collapseWhitespace cs)"
  by pat_completeness auto
termination
  by (relation "measure length") (auto simp: less_Suc_eq_le length_dropWhile_le)

text \<open>
  The index of the last line feed of a string, if it has one. For the whitespace run that
  follows a line feed it is where the greedy \<^verbatim>\<open>\s*\<close> of \<^verbatim>\<open>/\n\s*\n/\<close> stops after
  backtracking.
\<close>

fun lastNewline :: "string \<Rightarrow> nat option" where
  "lastNewline [] = None"
| "lastNewline (c # cs) =
     (case lastNewline cs of
        Some k \<Rightarrow> Some (Suc k)
      | None \<Rightarrow> (if c = CHR 0x0A then Some 0 else None))"

text \<open>
  \<^verbatim>\<open>.replace(/\n\s*\n/g, "\n")\<close>: scanning from the left, a line feed followed by a
  whitespace run that contains another line feed is matched up to the last line feed of the
  run and replaced by one line feed; the scan resumes after the match.
\<close>

function collapseBlankLines :: "string \<Rightarrow> string" where
  "collapseBlankLines [] = []"
| "collapseBlankLines (c # cs) =
     (if c = CHR 0x0A then
        (case lastNewline (takeWhile isWhitespace cs) of
           Some k \<Rightarrow> CHR 0x0A # collapseBlankLines (drop (Suc k) cs)
         | None \<Rightarrow> c # collapseBlankLines cs)
      else c # collapseBlankLines cs)"
  by pat_completeness auto
termination
  by (relation "measure length") auto

definition normalizeText :: "string \<Rightarrow> string" where
  "normalizeText text = collapseBlankLines (collapseWhitespace (trim (toLowerCase text)))"

definition SHINGLE_SIZE :: nat where
  "SHINGLE_SIZE = 4"

definition SHINGLE_THRESHOLD :: real where
  "SHINGLE_THRESHOLD = 0.6"

text \<open>
  \<^verbatim>\<open>text.split(/\s+/)\<close>: the pieces between the whitespace runs, empty pieces included
  (the empty text splits into one empty piece).
\<close>

function splitWhitespace :: "string \<Rightarrow> string list" where
  "splitWhitespace text =
     (let piece = takeWhile (\<lambda>c. \<not> isWhitespace c) text;
          rest = dropWhile (\<lambda>c. \<not> isWhitespace c) text
      in if rest = [] then [piece]
         else piece # splitWhitespace (dropWhile isWhitespace rest))"
  by pat_completeness auto
termination
proof (relation "measure length")
  show "wf (measure length)" by simp
next
  fix s :: string and x xa
  assume x: "x = takeWhile (\<lambda>c. \<not> isWhitespace c) s"
    and xa: "xa = dropWhile (\<lambda>c. \<not> isWhitespace c) s"
    and ne: "xa \<noteq> []"
  from ne obtain c cs where cs: "xa = c # cs" by (cases xa) auto
  have "isWhitespace c"
    using xa cs dropWhile_eq_Cons_conv[of "\<lambda>c. \<not> isWhitespace c" s c cs] by simp
  then have "length (dropWhile isWhitespace xa) \<le> length cs"
    using cs by (simp add: length_dropWhile_le)
  moreover have "length xa \<le> length s"
    using xa by (simp add: length_dropWhile_le)
  ultimately show "(dropWhile isWhitespace xa, s) \<in> measure length"
    using cs by simp
qed

declare splitWhitespace.simps [simp del]

text \<open>\<^verbatim>\<open>tokens.join(" ")\<close>.\<close>

fun join :: "string list \<Rightarrow> string" where
  "join [] = []"
| "join [t] = t"
| "join (t # ts) = t @ CHR 0x20 # join ts"

text \<open>
  A \<^verbatim>\<open>Map<string, number>\<close> is an association list in insertion order with distinct
  keys: \<open>map_of\<close> is \<^verbatim>\<open>get\<close>, \<open>mapSet\<close> is \<^verbatim>\<open>set\<close> (an existing key keeps its place, a new
  key goes to the end) and \<open>length\<close> is \<^verbatim>\<open>size\<close>.
\<close>

fun mapSet :: "'k \<Rightarrow> 'v \<Rightarrow> ('k \<times> 'v) list \<Rightarrow> ('k \<times> 'v) list" where
  "mapSet k v [] = [(k, v)]"
| "mapSet k v (p # ps) = (if fst p = k then (k, v) # ps else p # mapSet k v ps)"

text \<open>\<^verbatim>\<open>vector.set(key, (vector.get(key) ?? 0) + 1)\<close>.\<close>

definition increment :: "string \<Rightarrow> (string \<times> nat) list \<Rightarrow> (string \<times> nat) list" where
  "increment key vector =
     mapSet key ((case map_of vector key of None \<Rightarrow> 0 | Some n \<Rightarrow> n) + 1) vector"

definition buildShingleVector :: "string \<Rightarrow> (string \<times> nat) list" where
  "buildShingleVector text =
     (let tokens = filter (\<lambda>t. t \<noteq> []) (splitWhitespace text) in
      if length tokens = 0 then []
      else
        let vector =
              fold (\<lambda>i. increment (join (take SHINGLE_SIZE (drop i tokens))))
                [0 ..< nat (int (length tokens) - int SHINGLE_SIZE + 1)] []
        in if length vector = 0 then fold increment tokens vector else vector)"

definition cosineSimilarity :: "(string \<times> nat) list \<Rightarrow> (string \<times> nat) list \<Rightarrow> real" where
  "cosineSimilarity vecA vecB =
     (if length vecA = 0 \<or> length vecB = 0 then (if length vecA = length vecB then 1 else 0)
      else
        let magA = fold (\<lambda>value mag. mag + value * value) (map snd vecA) 0;
            magB = fold (\<lambda>value mag. mag + value * value) (map snd vecB) 0;
            (smaller, larger) = (if length vecA \<le> length vecB then (vecA, vecB) else (vecB, vecA));
            dot = fold (\<lambda>(term, value) dot.
                          case map_of larger term of None \<Rightarrow> dot | Some other \<Rightarrow> dot + value * other)
                    smaller 0
        in if magA = 0 \<or> magB = 0 then 0
           else real dot / sqrt (real (magA * magB)))"

text \<open>
  The body of the inner loop of the edit distance: \<^verbatim>\<open>currentRow[j]\<close> is written from
  \<^verbatim>\<open>currentRow[j - 1]\<close>, \<^verbatim>\<open>previousRow[j]\<close> and \<^verbatim>\<open>previousRow[j - 1]\<close>. All indices
  are within the rows, which have \<open>len2 + 1\<close> cells.
\<close>

definition levenshteinCell :: "char \<Rightarrow> string \<Rightarrow> nat list \<Rightarrow> nat \<Rightarrow> nat list \<Rightarrow> nat list" where
  "levenshteinCell char1 str2 previousRow j currentRow =
     (let cost = (if char1 = str2 ! (j - 1) then 0 else 1)
      in currentRow[j := min (min (currentRow ! (j - 1) + 1) (previousRow ! j + 1))
                            (previousRow ! (j - 1) + cost)])"

text \<open>The inner loop, \<^verbatim>\<open>for (let j = 1; j <= len2; j++)\<close>.\<close>

definition levenshteinInner :: "char \<Rightarrow> string \<Rightarrow> nat list \<Rightarrow> nat list \<Rightarrow> nat list" where
  "levenshteinInner char1 str2 previousRow currentRow =
     fold (levenshteinCell char1 str2 previousRow) [1 ..< length str2 + 1] currentRow"

text \<open>
  The body of the outer loop on the pair \<open>(previousRow, currentRow)\<close>: the row of
  \<^verbatim>\<open>str1[i - 1]\<close> is computed into \<^verbatim>\<open>currentRow\<close> and the two arrays are swapped.
\<close>

definition levenshteinRow :: "string \<Rightarrow> string \<Rightarrow> nat \<Rightarrow> nat list \<times> nat list \<Rightarrow> nat list \<times> nat list" where
  "levenshteinRow str1 str2 i rows =
     (case rows of
        (previousRow, currentRow) \<Rightarrow>
          let currentRow = levenshteinInner (str1 ! (i - 1)) str2 previousRow (currentRow[0 := i])
          in (currentRow, previousRow))"

text \<open>
  The outer loop, \<^verbatim>\<open>for (let i = 1; i <= len1; i++)\<close>, and the result
  \<^verbatim>\<open>previousRow[len2]\<close>. The cells of a fresh \<^verbatim>\<open>new Array(len2 + 1)\<close> are written
  before they are read; they start as 0 here.
\<close>

definition levenshteinDistance :: "string \<Rightarrow> string \<Rightarrow> nat" where
  "levenshteinDistance str1 str2 =
     (let len1 = length str1; len2 = length str2;
          previousRow = [0 ..< len2 + 1];
          currentRow = replicate (len2 + 1) 0;
          (previousRow, currentRow) =
            fold (levenshteinRow str1 str2) [1 ..< len1 + 1] (previousRow, currentRow)
      in previousRow ! len2)"

function levenshteinSimilarity :: "string \<Rightarrow> string \<Rightarrow> real" where
  "levenshteinSimilarity str1 str2 =
     (let len1 = length str1; len2 = length str2 in
      if len1 = 0 \<and> len2 = 0 then 1
      else if len1 = 0 \<or> len2 = 0 then 0
      else if len2 > len1 then levenshteinSimilarity str2 str1
      else
        let distance = levenshteinDistance str1 str2;
            similarity = 1 - real distance / real (max len1 len2)
        in max 0 similarity)"
  by pat_completeness auto
termination
  by (relation "measure (\<lambda>(str1, str2). if length str2 > length str1 then 1 else 0)") auto

declare levenshteinSimilarity.simps [simp del]

definition calculateSimilarity :: "string \<Rightarrow> string \<Rightarrow> real" where
  "calculateSimilarity text1 text2 =
     (let normalized1 = normalizeText text1;
          normalized2 = normalizeText text2 in
      if normalized1 = normalized2 then 1
      else
        let shingleScore = cosineSimilarity (buildShingleVector normalized1)
                             (buildShingleVector normalized2)
        in if shingleScore < SHINGLE_THRESHOLD then shingleScore
           else max shingleScore (levenshteinSimilarity normalized1 normalized2))"

section \<open>Consensus resolver (src/convex/crons.ts, \<^verbatim>\<open>processRequestConsensus\<close>)\<close>

text \<open>
  The snapshot returned by \<^verbatim>\<open>getRequestConsensusData\<close>: one \<open>detail\<close> for each leak of
  the request that still exists, in the order of \<^verbatim>\<open>request.leaks\<close>.
\<close>

record detail =
  dLeakId :: leak_id
  dLeakText :: string
  dSubmittedBy :: "user_id option"
  dIsFullyVerified :: bool

record consensusData =
  dataClosed :: bool
  dataSubmittedBy :: "user_id option"
  dataLeaks :: "detail list"

definition getRequestConsensusData :: "db \<Rightarrow> request_id \<Rightarrow> consensusData option" where
  "getRequestConsensusData d requestId =
     (case requestsT d requestId of
        None \<Rightarrow> None
      | Some request \<Rightarrow>
          Some \<lparr>dataClosed = closed request,
                dataSubmittedBy = requestSubmittedBy request,
                dataLeaks =
                  List.map_filter
                    (\<lambda>leakId. case leaksT d leakId of
                                 None \<Rightarrow> None
                               | Some leak \<Rightarrow>
                                   Some \<lparr>dLeakId = leakId, dLeakText = leakText leak,
                                         dSubmittedBy = submittedBy leak,
                                         dIsFullyVerified = isFullyVerified leak\<rparr>)
                    (leaks request)\<rparr>)"

text \<open>
  A detail that passed the filter \<^verbatim>\<open>!!detail.submittedBy && !detail.isFullyVerified\<close>;
  the type guard of the source narrows \<^verbatim>\<open>submittedBy\<close> to a present id.
\<close>

record pending =
  pLeakId :: leak_id
  pLeakText :: string
  pSubmittedBy :: user_id

definition pendingDetails :: "detail list \<Rightarrow> pending list" where
  "pendingDetails details =
     List.map_filter
       (\<lambda>detail. case dSubmittedBy detail of
                    None \<Rightarrow> None
                  | Some submitter \<Rightarrow>
                      if dIsFullyVerified detail then None
                      else Some \<lparr>pLeakId = dLeakId detail, pLeakText = dLeakText detail,
                                 pSubmittedBy = submitter\<rparr>)
       details"

text \<open>\<^verbatim>\<open>Set.add\<close> on a set kept as the list of its members in insertion order.\<close>

definition setAdd :: "'a \<Rightarrow> 'a list \<Rightarrow> 'a list" where
  "setAdd x s = (if x \<in> set s then s else s @ [x])"

definition SIMILARITY_THRESHOLD :: real where
  "SIMILARITY_THRESHOLD = 0.85"

record similarityGroup =
  leakIds :: "leak_id list"
  userIds :: "user_id list"
  representativeText :: string

text \<open>
  One round of the clustering loop: the scan of the existing groups with its \<^verbatim>\<open>break\<close>
  at the first group that is similar enough, and the new group pushed at the end when
  no group took the detail.
\<close>

fun addToGroups :: "pending \<Rightarrow> similarityGroup list \<Rightarrow> similarityGroup list" where
  "addToGroups detail [] =
     [\<lparr>leakIds = [pLeakId detail], userIds = [pSubmittedBy detail],
       representativeText = pLeakText detail\<rparr>]"
| "addToGroups detail (grp # groups) =
     (if calculateSimilarity (representativeText grp) (pLeakText detail) \<ge> SIMILARITY_THRESHOLD
      then (if pSubmittedBy detail \<notin> set (userIds grp)
            then grp\<lparr>leakIds := leakIds grp @ [pLeakId detail],
                       userIds := userIds grp @ [pSubmittedBy detail]\<rparr>
            else grp) # groups
      else grp # addToGroups detail groups)"

definition similarityGroups :: "pending list \<Rightarrow> similarityGroup list" where
  "similarityGroups leakDetails = fold addToGroups leakDetails []"

text \<open>The body of the loop that keeps the largest group seen so far.\<close>

definition largerGroup :: "similarityGroup \<Rightarrow> similarityGroup option \<Rightarrow> similarityGroup option" where
  "largerGroup grp largestGroup =
     (if length (userIds grp) \<ge> 2 \<and>
         (case largestGroup of
            None \<Rightarrow> True
          | Some largest \<Rightarrow> length (userIds grp) > length (userIds largest))
      then Some grp else largestGroup)"

definition largestGroup :: "similarityGroup list \<Rightarrow> similarityGroup option" where
  "largestGroup groups = fold largerGroup groups None"

text \<open>
  What the action does with a group that won: the first leak id of the group, the detail
  that carries this id, and the users of the group other than the submitter of that detail.
  \<^verbatim>\<open>largestGroup.leakIds[0]\<close> of an empty array is \<^verbatim>\<open>undefined\<close>, which no detail
  carries. The result is the pair of arguments passed to \<^verbatim>\<open>applyConsensusResult\<close>,
  or \<open>None\<close> when the action returns without calling it.
\<close>

definition verifyGroup :: "pending list \<Rightarrow> similarityGroup \<Rightarrow> (leak_id \<times> user_id list) option" where
  "verifyGroup leakDetails largest =
     (case leakIds largest of
        [] \<Rightarrow> None
      | leakToVerifyId # _ \<Rightarrow>
          (case find (\<lambda>detail. pLeakId detail = leakToVerifyId) leakDetails of
             None \<Rightarrow> None
           | Some leakToVerify \<Rightarrow>
               let verifierIds = filter (\<lambda>userId. userId \<noteq> pSubmittedBy leakToVerify)
                                   (userIds largest)
               in if length verifierIds = 0 then None
                  else Some (pLeakId leakToVerify, verifierIds)))"

text \<open>
  The handler of \<^verbatim>\<open>processRequestConsensus\<close> after its query, on the snapshot \<open>data\<close>.
\<close>

definition resolveConsensus :: "consensusData option \<Rightarrow> (leak_id \<times> user_id list) option" where
  "resolveConsensus data =
     (case data of
        None \<Rightarrow> None
      | Some data \<Rightarrow>
          if dataClosed data then None
          else
            let leakDetails = pendingDetails (dataLeaks data) in
            if length leakDetails < 2 then None
            else
              let submitters = fold (\<lambda>detail. setAdd (pSubmittedBy detail)) leakDetails [] in
              if length submitters < 2 then None
              else
                (case largestGroup (similarityGroups leakDetails) of
                   None \<Rightarrow> None
                 | Some largest \<Rightarrow> verifyGroup leakDetails largest))"

section \<open>Result applier (src/convex/crons.ts) and user-initiated close (src/convex/requests.ts)\<close>

text \<open>
  \<^verbatim>\<open>ctx.db.get(userId)\<close>, then, if the user exists,
  \<^verbatim>\<open>ctx.db.patch(userId, {points: (user.points ?? 0) + n})\<close>.
\<close>

definition addPoints :: "int \<Rightarrow> user_id \<Rightarrow> db \<Rightarrow> db" where
  "addPoints n userId d =
     (case usersT d userId of
        None \<Rightarrow> d
      | Some u \<Rightarrow>
          d\<lparr>usersT := (usersT d)
               (userId \<mapsto> u\<lparr>points := Some ((case points u of None \<Rightarrow> 0 | Some p \<Rightarrow> p) + n)\<rparr>)\<rparr>)"

definition applyConsensusResult :: "db \<Rightarrow> request_id \<Rightarrow> leak_id \<Rightarrow> user_id list \<Rightarrow> db" where
  "applyConsensusResult d requestId leakId verifierIds =
     (case requestsT d requestId of
        None \<Rightarrow> d
      | Some request \<Rightarrow>
          if closed request then d
          else
            (case leaksT d leakId of
               None \<Rightarrow> d
             | Some leak \<Rightarrow>
                 if isFullyVerified leak then d
                 else
                   (case submittedBy leak of
                      None \<Rightarrow> d
                    | Some submitter \<Rightarrow>
                        let d = d\<lparr>leaksT := (leaksT d)
                                   (leakId \<mapsto> leak\<lparr>isFullyVerified := True,
                                                     verifiedBy := Some verifierIds\<rparr>)\<rparr>;
                            d = d\<lparr>requestsT := (requestsT d)
                                   (requestId \<mapsto> request\<lparr>closed := True\<rparr>)\<rparr>;
                            d = addPoints 100 submitter d;
                            d = fold (addPoints 50) verifierIds d
                        in (case requestSubmittedBy request of
                              None \<Rightarrow> d
                            | Some creator \<Rightarrow> addPoints 20 creator d))))"

text \<open>
  The action run without interleaving: the snapshot is read from the state that the
  mutation is then applied to.
\<close>

definition processRequestConsensus :: "db \<Rightarrow> request_id \<Rightarrow> db" where
  "processRequestConsensus d requestId =
     (case resolveConsensus (getRequestConsensusData d requestId) of
        None \<Rightarrow> d
      | Some (leakId, verifierIds) \<Rightarrow> applyConsensusResult d requestId leakId verifierIds)"

text \<open>
  \<^verbatim>\<open>closeRequest\<close> (the one that records \<^verbatim>\<open>closedBy\<close>), called by the signed-in user \<open>userId\<close>
  (\<open>None\<close> when nobody is signed in). It returns the error message, if any, and the state.
\<close>

definition closeRequest :: "db \<Rightarrow> user_id option \<Rightarrow> request_id \<Rightarrow> string option \<times> db" where
  "closeRequest d userId requestId =
     (case userId of
        None \<Rightarrow> (Some ''You must be logged in to close a request'', d)
      | Some uid \<Rightarrow>
          (case requestsT d requestId of
             None \<Rightarrow> (Some ''Request not found'', d)
           | Some request \<Rightarrow>
               if requestSubmittedBy request \<noteq> Some uid
               then (Some ''You can only close your own requests'', d)
               else if closed request then (Some ''Request is already closed'', d)
               else (None, d\<lparr>requestsT := (requestsT d)
                              (requestId \<mapsto> request\<lparr>closed := True, closedBy := Some User\<rparr>)\<rparr>)))"

section \<open>Observations and examples\<close>

text \<open>
  The point ledger of a user as the engine reads it, \<^verbatim>\<open>user.points ?? 0\<close>, or \<open>None\<close>
  for an id with no user document.
\<close>

definition ledger :: "db \<Rightarrow> user_id \<Rightarrow> int option" where
  "ledger d userId =
     map_option (\<lambda>u. case points u of None \<Rightarrow> 0 | Some p \<Rightarrow> p) (usersT d userId)"

text \<open>
  A request opened by bob with one unverified leak of alice; bob's user document has no
  points yet.
\<close>

definition exampleRequest :: request where
  "exampleRequest =
     \<lparr>closed = False, closedBy = None, leaks = [''leakA''],
      requestSubmittedBy = Some ''bob''\<rparr>"

definition exampleLeakA :: leak where
  "exampleLeakA =
     \<lparr>leakText = ''helpful assistant. Do X Y Z'', submittedBy = Some ''alice'',
      verifiedBy = None, isFullyVerified = False\<rparr>"

definition exampleDb :: db where
  "exampleDb =
     \<lparr>leaksT = [''leakA'' \<mapsto> exampleLeakA],
      requestsT = [''req'' \<mapsto> exampleRequest],
      usersT = [''alice'' \<mapsto> \<lparr>points = Some 7\<rparr>, ''bob'' \<mapsto> \<lparr>points = None\<rparr>,
                ''carol'' \<mapsto> \<lparr>points = Some 3\<rparr>]\<rparr>"

text \<open>Three unverified submissions of one user, as a snapshot of an open request.\<close>

definition exampleOneSubmitter :: consensusData where
  "exampleOneSubmitter =
     \<lparr>dataClosed = False, dataSubmittedBy = Some ''dave'',
      dataLeaks =
        [\<lparr>dLeakId = ''leak1'', dLeakText = ''same text'', dSubmittedBy = Some ''alice'',
          dIsFullyVerified = False\<rparr>,
         \<lparr>dLeakId = ''leak2'', dLeakText = ''same text'', dSubmittedBy = Some ''alice'',
          dIsFullyVerified = False\<rparr>,
         \<lparr>dLeakId = ''leak3'', dLeakText = ''same text'', dSubmittedBy = Some ''alice'',
          dIsFullyVerified = False\<rparr>]\<rparr>"

text \<open>
  Four pending submissions with two texts, each text sent by two users: two clusters
  with two submitters each, the cluster of alice and carol being formed first.
\<close>

definition exampleTie :: "pending list" where
  "exampleTie =
     [\<lparr>pLeakId = ''leak1'', pLeakText = ''alpha'', pSubmittedBy = ''alice''\<rparr>,
      \<lparr>pLeakId = ''leak2'', pLeakText = ''beta'', pSubmittedBy = ''bob''\<rparr>,
      \<lparr>pLeakId = ''leak3'', pLeakText = ''Alpha '', pSubmittedBy = ''carol''\<rparr>,
      \<lparr>pLeakId = ''leak4'', pLeakText = ''BETA'', pSubmittedBy = ''dave''\<rparr>]"

text \<open>A snapshot of an open request whose pending submissions are \<open>exampleTie\<close>.\<close>

definition exampleTieData :: consensusData where
  "exampleTieData =
     \<lparr>dataClosed = False, dataSubmittedBy = Some ''erin'',
      dataLeaks =
        [\<lparr>dLeakId = ''leak1'', dLeakText = ''alpha'', dSubmittedBy = Some ''alice'',
          dIsFullyVerified = False\<rparr>,
         \<lparr>dLeakId = ''leak2'', dLeakText = ''beta'', dSubmittedBy = Some ''bob'',
          dIsFullyVerified = False\<rparr>,
         \<lparr>dLeakId = ''leak3'', dLeakText = ''Alpha '', dSubmittedBy = Some ''carol'',
          dIsFullyVerified = False\<rparr>,
         \<lparr>dLeakId = ''leak4'', dLeakText = ''BETA'', dSubmittedBy = Some ''dave'',
          dIsFullyVerified = False\<rparr>]\<rparr>"

section \<open>Reference notions for the scorer\<close>

text \<open>
  The table of edit distances between the prefixes of two texts, by the usual recursion:
  \<open>editTable s t i j\<close> is the distance between the first \<open>i\<close> characters of \<open>s\<close> and
  the first \<open>j\<close> characters of \<open>t\<close>. The two-row loop of \<open>levenshteinDistance\<close> is
  compared with it.
\<close>

fun editTable :: "string \<Rightarrow> string \<Rightarrow> nat \<Rightarrow> nat \<Rightarrow> nat" where
  "editTable s t 0 j = j"
| "editTable s t (Suc i) 0 = Suc i"
| "editTable s t (Suc i) (Suc j) =
     min (min (editTable s t (Suc i) j + 1) (editTable s t i (Suc j) + 1))
         (editTable s t i j + (if s ! i = t ! j then 0 else 1))"

text \<open>The count that a frequency vector holds for a term, 0 for a term it does not hold.\<close>

definition weight :: "('k \<times> nat) list \<Rightarrow> 'k \<Rightarrow> nat" where
  "weight vec term = (case map_of vec term of None \<Rightarrow> 0 | Some value \<Rightarrow> value)"

text \<open>
  The dot product of two frequency vectors as a sum over the terms of either vector; the
  loops of \<open>cosineSimilarity\<close> are compared with it.
\<close>

definition dotProduct :: "('k \<times> nat) list \<Rightarrow> ('k \<times> nat) list \<Rightarrow> nat" where
  "dotProduct vecA vecB =
     (\<Sum>term \<in> fst ` set vecA \<union> fst ` set vecB. weight vecA term * weight vecB term)"

section \<open>The result applier\<close>

lemma addPoints_tables [simp]:
  "leaksT (addPoints n u d) = leaksT d" "requestsT (addPoints n u d) = requestsT d"
  by (simp_all add: addPoints_def split: option.splits)

lemma fold_addPoints_tables [simp]:
  "leaksT (fold (addPoints n) us d) = leaksT d"
  "requestsT (fold (addPoints n) us d) = requestsT d"
  by (induction us arbitrary: d) simp_all

lemma applyConsensusResult_guard_fails:
  assumes "requestsT d rid = None \<or> (\<exists>r. requestsT d rid = Some r \<and> closed r) \<or>
           leaksT d lid = None \<or>
           (\<exists>l. leaksT d lid = Some l \<and> (isFullyVerified l \<or> submittedBy l = None))"
  shows "applyConsensusResult d rid lid vs = d"
  using assms by (auto simp: applyConsensusResult_def split: option.splits)

lemma applyConsensusResult_closes:
  assumes "requestsT d rid = Some r" "\<not> closed r" "leaksT d lid = Some l"
    "\<not> isFullyVerified l" "submittedBy l = Some s"
  shows "requestsT (applyConsensusResult d rid lid vs) rid = Some (r\<lparr>closed := True\<rparr>)"
  using assms by (simp add: applyConsensusResult_def Let_def split: option.splits)

text \<open>
  C1. Whenever a guard of \<^verbatim>\<open>applyConsensusResult\<close> fails (the request is missing or
  closed, the leak is missing, verified or without submitter), the state is returned
  unchanged, so nothing is mutated and no points are awarded. Applying the same decision a
  second time leaves the state of the first application unchanged: the points are awarded
  once.
\<close>

theorem applyConsensusResult_guarded_once:
  "(requestsT d rid = None \<or> (\<exists>r. requestsT d rid = Some r \<and> closed r) \<or>
    leaksT d lid = None \<or>
    (\<exists>l. leaksT d lid = Some l \<and> (isFullyVerified l \<or> submittedBy l = None))
    \<longrightarrow> applyConsensusResult d rid lid vs = d) \<and>
   applyConsensusResult (applyConsensusResult d rid lid vs) rid lid vs =
     applyConsensusResult d rid lid vs"
proof (intro conjI impI)
  assume "requestsT d rid = None \<or> (\<exists>r. requestsT d rid = Some r \<and> closed r) \<or>
    leaksT d lid = None \<or>
    (\<exists>l. leaksT d lid = Some l \<and> (isFullyVerified l \<or> submittedBy l = None))"
  then show "applyConsensusResult d rid lid vs = d"
    by (rule applyConsensusResult_guard_fails)
next
  let ?d' = "applyConsensusResult d rid lid vs"
  show "applyConsensusResult ?d' rid lid vs = ?d'"
  proof (cases "requestsT d rid = None \<or> (\<exists>r. requestsT d rid = Some r \<and> closed r) \<or>
    leaksT d lid = None \<or>
    (\<exists>l. leaksT d lid = Some l \<and> (isFullyVerified l \<or> submittedBy l = None))")
    case True
    then have "?d' = d" by (rule applyConsensusResult_guard_fails)
    then show ?thesis by simp
  next
    case False
    then obtain r l s where "requestsT d rid = Some r" "\<not> closed r" "leaksT d lid = Some l"
      "\<not> isFullyVerified l" "submittedBy l = Some s"
      by auto
    then have "requestsT ?d' rid = Some (r\<lparr>closed := True\<rparr>)"
      by (rule applyConsensusResult_closes)
    then have "\<exists>r. requestsT ?d' rid = Some r \<and> closed r" by simp
    then show ?thesis by (intro applyConsensusResult_guard_fails) blast
  qed
qed

text \<open>
  On \<open>exampleDb\<close> the first application closes the request, so the guard of the second
  application fails; after both, alice holds her 7 points plus 100, not plus 200.
\<close>

theorem applyConsensusResult_guarded_once_witness:
  "requestsT (applyConsensusResult exampleDb ''req'' ''leakA'' [''bob'']) ''req''
     = Some (exampleRequest\<lparr>closed := True\<rparr>) \<and>
   applyConsensusResult (applyConsensusResult exampleDb ''req'' ''leakA'' [''bob''])
     ''req'' ''leakA'' [''bob''] = applyConsensusResult exampleDb ''req'' ''leakA'' [''bob''] \<and>
   ledger (applyConsensusResult (applyConsensusResult exampleDb ''req'' ''leakA'' [''bob''])
     ''req'' ''leakA'' [''bob'']) ''alice'' = Some 107"
  using applyConsensusResult_guarded_once
          [of "applyConsensusResult exampleDb ''req'' ''leakA'' [''bob'']" "''req''" "''leakA''"
              "[''bob'']"]
  by (simp add: exampleDb_def exampleRequest_def exampleLeakA_def ledger_def
        applyConsensusResult_def addPoints_def)

lemma applyConsensusResult_closedBy:
  "map_option closedBy (requestsT (applyConsensusResult d rid lid vs) rid') =
   map_option closedBy (requestsT d rid')"
  by (auto simp: applyConsensusResult_def Let_def split: option.splits)

text \<open>
  C2. On \<open>exampleDb\<close> the applier commits the decision and closes the request, and the
  closed request has no \<^verbatim>\<open>closedBy\<close>: the reason \<^verbatim>\<open>"verification"\<close> that the schema
  declares is not recorded. \<^verbatim>\<open>closeRequest\<close>, called by the owner on the same state,
  records \<^verbatim>\<open>"user"\<close>.
\<close>

theorem applyConsensusResult_records_no_reason:
  "requestsT (applyConsensusResult exampleDb ''req'' ''leakA'' [''carol'']) ''req''
     = Some \<lparr>closed = True, closedBy = None, leaks = [''leakA''],
             requestSubmittedBy = Some ''bob''\<rparr> \<and>
   closeRequest exampleDb (Some ''bob'') ''req''
     = (None, exampleDb\<lparr>requestsT := [''req'' \<mapsto>
          \<lparr>closed = True, closedBy = Some User, leaks = [''leakA''],
           requestSubmittedBy = Some ''bob''\<rparr>]\<rparr>)"
  by (simp add: exampleDb_def exampleRequest_def exampleLeakA_def
        applyConsensusResult_def addPoints_def closeRequest_def)


lemma ledger_other_tables [simp]:
  "ledger (d\<lparr>leaksT := x\<rparr>) = ledger d" "ledger (d\<lparr>requestsT := y\<rparr>) = ledger d"
  by (simp_all add: ledger_def fun_eq_iff)






section \<open>The consensus resolver\<close>

lemma fold_setAdd:
  "distinct acc \<Longrightarrow>
   distinct (fold (\<lambda>x. setAdd (f x)) xs acc) \<and>
   set (fold (\<lambda>x. setAdd (f x)) xs acc) = set acc \<union> f ` set xs"
  by (induction xs arbitrary: acc) (auto simp: setAdd_def)

lemma length_submitters:
  "length (fold (\<lambda>x. setAdd (f x)) xs []) = card (f ` set xs)"
  using fold_setAdd[of "[]" f xs] by (metis distinct.simps(1) distinct_card empty_set sup_bot.left_neutral)

text \<open>
  C4. A snapshot with fewer than two pending submissions (submitted by a user and not yet
  verified), or whose pending submissions come from fewer than two distinct submitters,
  resolves to no decision, and the action run on a state with this snapshot leaves the
  state unchanged.
\<close>

theorem resolveConsensus_too_few:
  assumes "length (pendingDetails (dataLeaks data)) < 2 \<or>
           card (pSubmittedBy ` set (pendingDetails (dataLeaks data))) < 2"
  shows "resolveConsensus (Some data) = None \<and>
         (getRequestConsensusData d requestId = Some data \<longrightarrow>
            processRequestConsensus d requestId = d)"
proof -
  have "resolveConsensus (Some data) = None"
    using assms by (auto simp: resolveConsensus_def Let_def length_submitters)
  then show ?thesis by (simp add: processRequestConsensus_def)
qed

text \<open>
  Three pending submissions of alice alone give no decision; so does the single pending
  submission of \<open>exampleDb\<close>, where the action changes nothing.
\<close>

theorem resolveConsensus_too_few_witness:
  "length (pendingDetails (dataLeaks exampleOneSubmitter)) = 3 \<and>
   card (pSubmittedBy ` set (pendingDetails (dataLeaks exampleOneSubmitter))) = 1 \<and>
   resolveConsensus (Some exampleOneSubmitter) = None \<and>
   getRequestConsensusData exampleDb ''req'' =
     Some \<lparr>dataClosed = False, dataSubmittedBy = Some ''bob'',
           dataLeaks = [\<lparr>dLeakId = ''leakA'', dLeakText = ''helpful assistant. Do X Y Z'',
                         dSubmittedBy = Some ''alice'', dIsFullyVerified = False\<rparr>]\<rparr> \<and>
   processRequestConsensus exampleDb ''req'' = exampleDb"
  using resolveConsensus_too_few[of exampleOneSubmitter]
    resolveConsensus_too_few
      [of "\<lparr>dataClosed = False, dataSubmittedBy = Some ''bob'',
            dataLeaks = [\<lparr>dLeakId = ''leakA'', dLeakText = ''helpful assistant. Do X Y Z'',
                          dSubmittedBy = Some ''alice'', dIsFullyVerified = False\<rparr>]\<rparr>"
          exampleDb "''req''"]
  by (simp add: exampleOneSubmitter_def pendingDetails_def List.map_filter_simps
        getRequestConsensusData_def exampleDb_def exampleRequest_def exampleLeakA_def)
text \<open>The clusters of \<open>exampleTie\<close>, by evaluation of the scorer.\<close>

lemma exampleTie_normalized:
  "normalizeText ''alpha'' = ''alpha''" "normalizeText ''beta'' = ''beta''"
  "normalizeText ''Alpha '' = ''alpha''" "normalizeText ''BETA'' = ''beta''"
  by code_simp+

lemma exampleTie_vectors:
  "buildShingleVector ''alpha'' = [(''alpha'', 1)]"
  "buildShingleVector ''beta'' = [(''beta'', 1)]"
  by code_simp+

lemma exampleTie_similarity:
  "calculateSimilarity ''alpha'' ''beta'' = 0"
  "calculateSimilarity ''alpha'' ''Alpha '' = 1"
  "calculateSimilarity ''alpha'' ''BETA'' = 0"
  "calculateSimilarity ''beta'' ''Alpha '' = 0"
  "calculateSimilarity ''beta'' ''BETA'' = 1"
  by (simp_all add: calculateSimilarity_def exampleTie_normalized exampleTie_vectors
        cosineSimilarity_def SHINGLE_THRESHOLD_def)

lemma exampleTie_groups:
  "similarityGroups exampleTie =
     [\<lparr>leakIds = [''leak1'', ''leak3''], userIds = [''alice'', ''carol''],
       representativeText = ''alpha''\<rparr>,
      \<lparr>leakIds = [''leak2'', ''leak4''], userIds = [''bob'', ''dave''],
       representativeText = ''beta''\<rparr>]"
  by (simp add: similarityGroups_def exampleTie_def SIMILARITY_THRESHOLD_def
        exampleTie_similarity)

lemma addToGroups_preserves:
  assumes "\<forall>g\<in>set gs. P g"
    and "P \<lparr>leakIds = [pLeakId x], userIds = [pSubmittedBy x],
            representativeText = pLeakText x\<rparr>"
    and "\<And>g. P g \<Longrightarrow> pSubmittedBy x \<notin> set (userIds g) \<Longrightarrow>
           P (g\<lparr>leakIds := leakIds g @ [pLeakId x], userIds := userIds g @ [pSubmittedBy x]\<rparr>)"
  shows "\<forall>g\<in>set (addToGroups x gs). P g"
  using assms(1)
proof (induction gs)
  case Nil
  then show ?case using assms(2) by simp
next
  case (Cons g gs)
  then show ?case using assms(3)[of g] by simp
qed

lemma addToGroups_inv:
  assumes "\<forall>g\<in>set gs. distinct (userIds g) \<and> leakIds g \<noteq> [] \<and> hd (leakIds g) \<in> S"
    and "pLeakId x \<in> S"
  shows "\<forall>g\<in>set (addToGroups x gs).
           distinct (userIds g) \<and> leakIds g \<noteq> [] \<and> hd (leakIds g) \<in> S"
  by (rule addToGroups_preserves[OF assms(1)]) (use assms(2) in simp_all)

lemma fold_addToGroups_inv:
  assumes "\<forall>g\<in>set gs. distinct (userIds g) \<and> leakIds g \<noteq> [] \<and> hd (leakIds g) \<in> S"
    and "pLeakId ` set xs \<subseteq> S"
  shows "\<forall>g\<in>set (fold addToGroups xs gs).
           distinct (userIds g) \<and> leakIds g \<noteq> [] \<and> hd (leakIds g) \<in> S"
  using assms
proof (induction xs arbitrary: gs)
  case Nil
  then show ?case by simp
next
  case (Cons x xs)
  have "pLeakId x \<in> S" using Cons.prems(2) by simp
  with Cons.prems(1) have "\<forall>g\<in>set (addToGroups x gs).
           distinct (userIds g) \<and> leakIds g \<noteq> [] \<and> hd (leakIds g) \<in> S"
    by (rule addToGroups_inv)
  moreover have "pLeakId ` set xs \<subseteq> S" using Cons.prems(2) by simp
  ultimately have "\<forall>g\<in>set (fold addToGroups xs (addToGroups x gs)).
           distinct (userIds g) \<and> leakIds g \<noteq> [] \<and> hd (leakIds g) \<in> S"
    by (rule Cons.IH)
  then show ?case by simp
qed

lemma similarityGroups_inv:
  assumes "g \<in> set (similarityGroups leakDetails)"
  shows "distinct (userIds g) \<and> leakIds g \<noteq> [] \<and> hd (leakIds g) \<in> pLeakId ` set leakDetails"
proof -
  have "\<forall>g\<in>set (fold addToGroups leakDetails []).
           distinct (userIds g) \<and> leakIds g \<noteq> [] \<and> hd (leakIds g) \<in> pLeakId ` set leakDetails"
    by (rule fold_addToGroups_inv) simp_all
  then show ?thesis using assms unfolding similarityGroups_def by blast
qed

lemma largestGroup_snoc:
  "largestGroup (gs @ [g]) = largerGroup g (largestGroup gs)"
  by (simp add: largestGroup_def)

lemma largestGroup_first_max:
  "case largestGroup gs of
     None \<Rightarrow> \<forall>g\<in>set gs. length (userIds g) < 2
   | Some w \<Rightarrow>
       \<exists>i<length gs. gs ! i = w \<and> 2 \<le> length (userIds w) \<and>
         (\<forall>j<length gs. length (userIds (gs ! j)) \<le> length (userIds w)) \<and>
         (\<forall>j<i. length (userIds (gs ! j)) < length (userIds w))"
proof (induction gs rule: rev_induct)
  case Nil
  show ?case by (simp add: largestGroup_def)
next
  case (snoc g gs)
  show ?case
  proof (cases "largestGroup gs")
    case None
    with snoc have small: "\<forall>g\<in>set gs. length (userIds g) < 2" by simp
    show ?thesis
    proof (cases "2 \<le> length (userIds g)")
      case True
      then have win: "largestGroup (gs @ [g]) = Some g"
        using None by (simp add: largestGroup_snoc largerGroup_def)
      have "\<forall>j<length gs. length (userIds (gs ! j)) < length (userIds g)"
        using small True by (metis nth_mem less_le_trans)
      then have "(\<forall>j<length (gs @ [g]). length (userIds ((gs @ [g]) ! j)) \<le> length (userIds g)) \<and>
         (\<forall>j<length gs. length (userIds ((gs @ [g]) ! j)) < length (userIds g))"
        by (auto simp: nth_append less_Suc_eq)
      then show ?thesis using win True
        by (auto intro!: exI[of _ "length gs"])
    next
      case False
      then have "largestGroup (gs @ [g]) = None"
        using None by (simp add: largestGroup_snoc largerGroup_def)
      then show ?thesis using small False by auto
    qed
  next
    case (Some w)
    with snoc obtain i where i: "i < length gs" "gs ! i = w" "2 \<le> length (userIds w)"
      "\<forall>j<length gs. length (userIds (gs ! j)) \<le> length (userIds w)"
      "\<forall>j<i. length (userIds (gs ! j)) < length (userIds w)"
      by auto
    show ?thesis
    proof (cases "length (userIds g) > length (userIds w)")
      case True
      then have win: "largestGroup (gs @ [g]) = Some g"
        using Some i(3) by (simp add: largestGroup_snoc largerGroup_def)
      have "\<forall>j<length gs. length (userIds (gs ! j)) < length (userIds g)"
        using i(4) True by (meson le_less_trans)
      then have "(\<forall>j<length (gs @ [g]). length (userIds ((gs @ [g]) ! j)) \<le> length (userIds g)) \<and>
         (\<forall>j<length gs. length (userIds ((gs @ [g]) ! j)) < length (userIds g))"
        by (auto simp: nth_append less_Suc_eq)
      then show ?thesis using win True i(3)
        by (auto intro!: exI[of _ "length gs"])
    next
      case False
      then have keep: "largestGroup (gs @ [g]) = Some w"
        using Some by (simp add: largestGroup_snoc largerGroup_def)
      have "(\<forall>j<length (gs @ [g]). length (userIds ((gs @ [g]) ! j)) \<le> length (userIds w)) \<and>
         (\<forall>j<i. length (userIds ((gs @ [g]) ! j)) < length (userIds w))"
        using i False by (auto simp: nth_append less_Suc_eq)
      then show ?thesis using keep i(1-3)
        by (auto intro!: exI[of _ i] simp: nth_append)
    qed
  qed
qed

text \<open>
  C5. Among the clusters of the clustering pass, listed in the order of their creation,
  the winner is a cluster with at least two distinct submitters, no cluster has more
  distinct submitters than the winner, and every cluster created before the winner has
  strictly fewer: of the clusters that tie on the largest count, the earliest wins. There
  is no winner exactly when no cluster has two distinct submitters.
\<close>

theorem largestGroup_of_clusters:
  "case largestGroup (similarityGroups leakDetails) of
     None \<Rightarrow> \<forall>g\<in>set (similarityGroups leakDetails). card (set (userIds g)) < 2
   | Some w \<Rightarrow>
       \<exists>i<length (similarityGroups leakDetails).
         similarityGroups leakDetails ! i = w \<and> 2 \<le> card (set (userIds w)) \<and>
         (\<forall>j<length (similarityGroups leakDetails).
            card (set (userIds (similarityGroups leakDetails ! j))) \<le> card (set (userIds w))) \<and>
         (\<forall>j<i. card (set (userIds (similarityGroups leakDetails ! j)))
                  < card (set (userIds w)))"
proof -
  let ?gs = "similarityGroups leakDetails"
  have len: "\<And>g. g \<in> set ?gs \<Longrightarrow> card (set (userIds g)) = length (userIds g)"
    using similarityGroups_inv by (simp add: distinct_card)
  have nth: "\<And>j. j < length ?gs \<Longrightarrow> card (set (userIds (?gs ! j))) = length (userIds (?gs ! j))"
    using len by simp
  show ?thesis
  proof (cases "largestGroup ?gs")
    case None
    then show ?thesis using largestGroup_first_max[of ?gs] len by simp
  next
    case (Some w)
    then obtain i where i: "i < length ?gs" "?gs ! i = w" "2 \<le> length (userIds w)"
      "\<forall>j<length ?gs. length (userIds (?gs ! j)) \<le> length (userIds w)"
      "\<forall>j<i. length (userIds (?gs ! j)) < length (userIds w)"
      using largestGroup_first_max[of ?gs] by auto
    have w: "card (set (userIds w)) = length (userIds w)" using nth[OF i(1)] i(2) by simp
    have "\<forall>j<i. card (set (userIds (?gs ! j))) < card (set (userIds w))"
      using i(1,5) nth w by simp
    moreover have "\<forall>j<length ?gs. card (set (userIds (?gs ! j))) \<le> card (set (userIds w))"
      using i(4) nth w by simp
    ultimately show ?thesis using Some i(1-3) w by auto
  qed
qed

text \<open>
  In \<open>exampleTie\<close> the two clusters have two submitters each, and the first one wins.
\<close>

theorem largestGroup_of_clusters_witness:
  "similarityGroups exampleTie =
     [\<lparr>leakIds = [''leak1'', ''leak3''], userIds = [''alice'', ''carol''],
       representativeText = ''alpha''\<rparr>,
      \<lparr>leakIds = [''leak2'', ''leak4''], userIds = [''bob'', ''dave''],
       representativeText = ''beta''\<rparr>] \<and>
   card (set (userIds (similarityGroups exampleTie ! 1))) = 2 \<and>
   largestGroup (similarityGroups exampleTie) = Some (similarityGroups exampleTie ! 0) \<and>
   card (set (userIds (similarityGroups exampleTie ! 1)))
     \<le> card (set (userIds (similarityGroups exampleTie ! 0)))"
proof -
  let ?gs = "similarityGroups exampleTie"
  have w: "largestGroup ?gs = Some (?gs ! 0)"
    by (simp add: exampleTie_groups largestGroup_def largerGroup_def)
  have "\<forall>j<length ?gs. card (set (userIds (?gs ! j))) \<le> card (set (userIds (?gs ! 0)))"
    using largestGroup_of_clusters[of exampleTie] unfolding w by auto
  moreover have "1 < length ?gs" by (simp add: exampleTie_groups)
  ultimately have "card (set (userIds (?gs ! 1))) \<le> card (set (userIds (?gs ! 0)))"
    by blast
  moreover have "card (set (userIds (?gs ! 1))) = 2" by (simp add: exampleTie_groups)
  ultimately show ?thesis using w exampleTie_groups by simp
qed

text \<open>
  A winner has at least two distinct users, so removing one user from its list leaves a
  verifier: for a winner the check of an empty verifier list never fires.
\<close>

lemma largestGroup_has_verifier:
  assumes "largestGroup (similarityGroups leakDetails) = Some g"
  shows "filter (\<lambda>userId. userId \<noteq> submitter) (userIds g) \<noteq> []"
proof
  assume empty: "filter (\<lambda>userId. userId \<noteq> submitter) (userIds g) = []"
  from largestGroup_first_max[of "similarityGroups leakDetails"] assms
  obtain i where i: "i < length (similarityGroups leakDetails)"
    "similarityGroups leakDetails ! i = g" "2 \<le> length (userIds g)"
    by auto
  then have "g \<in> set (similarityGroups leakDetails)" by (metis nth_mem)
  then have d: "distinct (userIds g)" using similarityGroups_inv by blast
  from empty have "set (userIds g) \<subseteq> {submitter}" by (auto simp: filter_empty_conv)
  then have "card (set (userIds g)) \<le> 1"
    by (metis card_mono finite.emptyI finite.insertI card_1_singleton_iff One_nat_def
        card.empty card.insert empty_iff le_refl)
  then have "length (userIds g) \<le> 1" using d by (simp add: distinct_card)
  with i(3) show False by simp
qed

lemma find_leak_by_id:
  assumes "i \<in> pLeakId ` set leakDetails"
  shows "\<exists>canonical. find (\<lambda>detail. pLeakId detail = i) leakDetails = Some canonical \<and>
           pLeakId canonical = i \<and> canonical \<in> set leakDetails"
proof (cases "find (\<lambda>detail. pLeakId detail = i) leakDetails")
  case None
  then show ?thesis using assms by (auto simp: find_None_iff)
next
  case (Some c)
  then show ?thesis by (auto simp: find_Some_iff)
qed

lemma exampleTieData_pending: "pendingDetails (dataLeaks exampleTieData) = exampleTie"
  by (simp add: exampleTieData_def exampleTie_def pendingDetails_def List.map_filter_simps)

text \<open>
  C6. For a cluster \<open>g\<close> of the clustering pass: its list of leak ids is not empty and
  the canonical submission is the pending submission carrying the first id of the list;
  the verifiers are the users of the cluster other than the canonical submission's
  submitter, each once; the decision for \<open>g\<close> is the pair of the first leak id and the
  verifiers, or no decision when there is no verifier; and when \<open>g\<close> is the winner of a
  snapshot that passed the earlier checks, this is what the resolver returns.
\<close>

theorem verifyGroup_of_cluster:
  assumes "g \<in> set (similarityGroups leakDetails)"
  shows "\<exists>canonical verifiers.
           leakIds g \<noteq> [] \<and>
           find (\<lambda>detail. pLeakId detail = hd (leakIds g)) leakDetails = Some canonical \<and>
           verifiers = filter (\<lambda>userId. userId \<noteq> pSubmittedBy canonical) (userIds g) \<and>
           distinct verifiers \<and>
           set verifiers = set (userIds g) - {pSubmittedBy canonical} \<and>
           verifyGroup leakDetails g =
             (if verifiers = [] then None else Some (hd (leakIds g), verifiers)) \<and>
           (\<forall>data. \<not> dataClosed data \<and> pendingDetails (dataLeaks data) = leakDetails \<and>
                   2 \<le> length leakDetails \<and> 2 \<le> card (pSubmittedBy ` set leakDetails) \<and>
                   largestGroup (similarityGroups leakDetails) = Some g
              \<longrightarrow> resolveConsensus (Some data) =
                    (if verifiers = [] then None else Some (hd (leakIds g), verifiers)))"
proof -
  from similarityGroups_inv[OF assms]
  have inv: "distinct (userIds g)" "leakIds g \<noteq> []" "hd (leakIds g) \<in> pLeakId ` set leakDetails"
    by simp_all
  from find_leak_by_id[OF inv(3)] obtain canonical where
    c: "find (\<lambda>detail. pLeakId detail = hd (leakIds g)) leakDetails = Some canonical"
       "pLeakId canonical = hd (leakIds g)"
    by blast
  define verifiers where "verifiers = filter (\<lambda>userId. userId \<noteq> pSubmittedBy canonical) (userIds g)"
  from inv(2) obtain i rest where ids: "leakIds g = i # rest" by (cases "leakIds g") auto
  have vg: "verifyGroup leakDetails g =
             (if verifiers = [] then None else Some (hd (leakIds g), verifiers))"
    using c ids by (simp add: verifyGroup_def verifiers_def Let_def)
  have rc: "resolveConsensus (Some data) = verifyGroup leakDetails g"
    if "\<not> dataClosed data" "pendingDetails (dataLeaks data) = leakDetails"
       "2 \<le> length leakDetails" "2 \<le> card (pSubmittedBy ` set leakDetails)"
       "largestGroup (similarityGroups leakDetails) = Some g" for data
    using that by (simp add: resolveConsensus_def Let_def length_submitters)
  have "distinct verifiers" using inv(1) by (simp add: verifiers_def)
  moreover have "set verifiers = set (userIds g) - {pSubmittedBy canonical}"
    by (auto simp: verifiers_def)
  ultimately show ?thesis
    using inv(2) c(1) vg rc verifiers_def by (intro exI[of _ canonical] exI[of _ verifiers]) auto
qed

text \<open>
  For \<open>exampleTieData\<close> the winner is the cluster of alice and carol; the canonical
  submission is alice's \<open>leak1\<close> and carol is the verifier.
\<close>

theorem verifyGroup_of_cluster_witness:
  "similarityGroups exampleTie ! 0 \<in> set (similarityGroups exampleTie) \<and>
   \<not> dataClosed exampleTieData \<and> pendingDetails (dataLeaks exampleTieData) = exampleTie \<and>
   2 \<le> length exampleTie \<and> 2 \<le> card (pSubmittedBy ` set exampleTie) \<and>
   largestGroup (similarityGroups exampleTie) = Some (similarityGroups exampleTie ! 0) \<and>
   verifyGroup exampleTie (similarityGroups exampleTie ! 0) = Some (''leak1'', [''carol'']) \<and>
   resolveConsensus (Some exampleTieData) = Some (''leak1'', [''carol''])"
proof -
  let ?g = "similarityGroups exampleTie ! 0"
  have g: "?g \<in> set (similarityGroups exampleTie)" by (simp add: exampleTie_groups)
  have guards: "\<not> dataClosed exampleTieData" "pendingDetails (dataLeaks exampleTieData) = exampleTie"
    "2 \<le> length exampleTie" "2 \<le> card (pSubmittedBy ` set exampleTie)"
    by (simp_all add: exampleTieData_pending) (simp_all add: exampleTieData_def exampleTie_def)
  have w: "largestGroup (similarityGroups exampleTie) = Some ?g"
    by (simp add: exampleTie_groups largestGroup_def largerGroup_def)
  have vg: "verifyGroup exampleTie ?g = Some (''leak1'', [''carol''])"
    by (simp add: exampleTie_groups verifyGroup_def) (simp add: exampleTie_def)
  from verifyGroup_of_cluster[OF g] obtain verifiers where
    v: "verifyGroup exampleTie ?g = (if verifiers = [] then None else Some (hd (leakIds ?g), verifiers))"
      "\<forall>data. \<not> dataClosed data \<and> pendingDetails (dataLeaks data) = exampleTie \<and>
                   2 \<le> length exampleTie \<and> 2 \<le> card (pSubmittedBy ` set exampleTie) \<and>
                   largestGroup (similarityGroups exampleTie) = Some ?g
              \<longrightarrow> resolveConsensus (Some data) =
                    (if verifiers = [] then None else Some (hd (leakIds ?g), verifiers))"
    by blast
  have "resolveConsensus (Some exampleTieData) = verifyGroup exampleTie ?g"
    using v(2) guards w v(1) by simp
  then show ?thesis using g guards w vg by simp
qed

section \<open>Text normalisation\<close>

lemma isWhitespace_newline [simp]: "isWhitespace (CHR 0x0A)" "isWhitespace (CHR 0x20)"
  by (simp_all add: isWhitespace_def)

lemma isWhitespace_toLowerChar [simp]: "isWhitespace (toLowerChar c) = isWhitespace c"
  by (simp add: isWhitespace_def toLowerChar_def upperCaseChars_def lowerCaseChars_def)

lemma toLowerChar_idem [simp]: "toLowerChar (toLowerChar c) = toLowerChar c"
  by (simp add: toLowerChar_def upperCaseChars_def lowerCaseChars_def)

lemma toLowerChar_space [simp]: "toLowerChar (CHR 0x20) = CHR 0x20"
  by (simp add: toLowerChar_def upperCaseChars_def lowerCaseChars_def)

lemma collapseWhitespace_only_spaces:
  "c \<in> set (collapseWhitespace s) \<Longrightarrow> isWhitespace c \<Longrightarrow> c = CHR 0x20"
  by (induction s rule: collapseWhitespace.induct) (auto split: if_splits dest: set_dropWhileD)

lemma collapseWhitespace_no_newline: "CHR 0x0A \<notin> set (collapseWhitespace s)"
  using collapseWhitespace_only_spaces[of "CHR 0x0A" s] by auto

lemma collapseBlankLines_no_newline: "CHR 0x0A \<notin> set s \<Longrightarrow> collapseBlankLines s = s"
  by (induction s) auto

lemma dropWhile_head: "t = [] \<or> \<not> P (hd t) \<Longrightarrow> dropWhile P t = t"
  by (cases t) auto

lemma collapseWhitespace_head:
  "t = [] \<or> \<not> isWhitespace (hd t) \<Longrightarrow>
   collapseWhitespace t = [] \<or> \<not> isWhitespace (hd (collapseWhitespace t))"
  by (cases t) auto

lemma dropWhile_starts: "dropWhile P xs = [] \<or> \<not> P (hd (dropWhile P xs))"
  by (metis hd_dropWhile)

lemma collapseWhitespace_idem: "collapseWhitespace (collapseWhitespace s) = collapseWhitespace s"
proof (induction s rule: collapseWhitespace.induct)
  case 1
  show ?case by simp
next
  case (2 c cs)
  show ?case
  proof (cases "isWhitespace c")
    case True
    let ?t = "dropWhile isWhitespace cs"
    have "dropWhile isWhitespace (collapseWhitespace ?t) = collapseWhitespace ?t"
      by (intro dropWhile_head collapseWhitespace_head dropWhile_starts)
    then show ?thesis using True 2(1) by simp
  next
    case False
    then show ?thesis using 2(2) by simp
  qed
qed

lemma last_dropWhile_keep:
  "xs \<noteq> [] \<Longrightarrow> \<not> P (last xs) \<Longrightarrow> dropWhile P xs \<noteq> [] \<and> last (dropWhile P xs) = last xs"
  by (induction xs) (auto split: if_splits)

lemma collapseWhitespace_last:
  "t \<noteq> [] \<Longrightarrow> \<not> isWhitespace (last t) \<Longrightarrow>
   collapseWhitespace t \<noteq> [] \<and> \<not> isWhitespace (last (collapseWhitespace t))"
proof (induction t rule: collapseWhitespace.induct)
  case 1
  then show ?case by simp
next
  case (2 c cs)
  show ?case
  proof (cases "isWhitespace c")
    case True
    with 2(4) have cs: "cs \<noteq> []" "\<not> isWhitespace (last cs)" by (auto split: if_splits)
    from last_dropWhile_keep[of cs isWhitespace, OF cs]
    have "dropWhile isWhitespace cs \<noteq> []" "\<not> isWhitespace (last (dropWhile isWhitespace cs))"
      using cs(2) by simp_all
    with 2(1)[OF True] show ?thesis using True by simp
  next
    case False
    show ?thesis
    proof (cases "cs = []")
      case True
      then show ?thesis using False by simp
    next
      case nonempty: False
      with 2(4) have "\<not> isWhitespace (last cs)" by simp
      with 2(2)[OF False nonempty] show ?thesis using False by simp
    qed
  qed
qed

lemma trim_trimmed:
  assumes "u = [] \<or> (\<not> isWhitespace (hd u) \<and> \<not> isWhitespace (last u))"
  shows "trim u = u"
proof (cases "u = []")
  case True
  then show ?thesis by (simp add: trim_def)
next
  case False
  with assms have h: "\<not> isWhitespace (hd u)" "\<not> isWhitespace (last u)" by simp_all
  have 1: "dropWhile isWhitespace u = u" using h(1) by (intro dropWhile_head) simp
  have "hd (rev u) = last u" using False by (simp add: hd_rev)
  then have 2: "dropWhile isWhitespace (rev u) = rev u" using h(2) by (intro dropWhile_head) simp
  show ?thesis by (simp add: trim_def 1 2)
qed

lemma trim_is_trimmed:
  "trim s = [] \<or> (\<not> isWhitespace (hd (trim s)) \<and> \<not> isWhitespace (last (trim s)))"
proof (cases "trim s = []")
  case True
  then show ?thesis by simp
next
  case False
  let ?a = "dropWhile isWhitespace s"
  let ?b = "dropWhile isWhitespace (rev ?a)"
  have b: "?b \<noteq> []" using False by (simp add: trim_def)
  then have "\<not> isWhitespace (hd ?b)" using dropWhile_starts[of isWhitespace "rev ?a"] by blast
  then have l: "\<not> isWhitespace (last (trim s))" using b by (simp add: trim_def last_rev)
  have a: "?a \<noteq> []"
  proof
    assume "?a = []"
    then have "?b = []" by (simp only: rev.simps dropWhile.simps)
    with b show False by contradiction
  qed
  then have ha: "\<not> isWhitespace (hd ?a)" using dropWhile_starts[of isWhitespace s] by blast
  have "rev ?a = takeWhile isWhitespace (rev ?a) @ ?b" by simp
  then have "last (rev ?a) = last ?b" using b by (metis last_appendR)
  then have "last ?b = hd ?a" using a by (simp add: last_rev)
  then have "\<not> isWhitespace (hd (trim s))" using ha b by (simp add: trim_def hd_rev)
  with l show ?thesis by simp
qed

lemma normalized_trimmed:
  "trim (collapseWhitespace (trim s)) = collapseWhitespace (trim s)"
proof (cases "trim s = []")
  case True
  have "trim [] = []" by (simp add: trim_def)
  then show ?thesis using True by simp
next
  case False
  with trim_is_trimmed[of s]
  have t: "\<not> isWhitespace (hd (trim s))" "\<not> isWhitespace (last (trim s))" by simp_all
  have "collapseWhitespace (trim s) \<noteq> [] \<and> \<not> isWhitespace (last (collapseWhitespace (trim s)))"
    using False t(2) by (rule collapseWhitespace_last)
  moreover have "collapseWhitespace (trim s) = [] \<or> \<not> isWhitespace (hd (collapseWhitespace (trim s)))"
    using t(1) by (intro collapseWhitespace_head) simp
  ultimately show ?thesis by (intro trim_trimmed) simp
qed

lemma toLowerCase_collapseWhitespace:
  "toLowerCase (collapseWhitespace s) = collapseWhitespace (toLowerCase s)"
  by (induction s rule: collapseWhitespace.induct)
     (simp_all add: toLowerCase_def dropWhile_map o_def)

lemma toLowerCase_trim: "toLowerCase (trim s) = trim (toLowerCase s)"
  by (simp add: toLowerCase_def trim_def rev_map dropWhile_map o_def)

lemma toLowerCase_idem: "toLowerCase (toLowerCase s) = toLowerCase s"
  by (simp add: toLowerCase_def)

lemma normalizeText_eq: "normalizeText s = collapseWhitespace (trim (toLowerCase s))"
  by (simp add: normalizeText_def collapseBlankLines_no_newline collapseWhitespace_no_newline)

text \<open>
  C10. The result of \<open>normalizeText\<close> contains no line feed; the last step,
  \<open>collapseBlankLines\<close>, leaves the text produced by the whitespace step as it is; and
  normalising a normalised text changes nothing.
\<close>

theorem normalizeText_no_newline:
  "CHR 0x0A \<notin> set (normalizeText s) \<and>
   collapseBlankLines (collapseWhitespace (trim (toLowerCase s))) =
     collapseWhitespace (trim (toLowerCase s)) \<and>
   normalizeText (normalizeText s) = normalizeText s"
proof -
  let ?w = "collapseWhitespace (trim (toLowerCase s))"
  have "toLowerCase ?w = ?w"
    by (simp add: toLowerCase_collapseWhitespace toLowerCase_trim toLowerCase_idem)
  then have "normalizeText ?w = collapseWhitespace (trim ?w)"
    by (simp add: normalizeText_eq)
  also have "\<dots> = ?w" by (simp add: normalized_trimmed collapseWhitespace_idem)
  finally show ?thesis
    by (simp add: normalizeText_eq collapseWhitespace_no_newline collapseBlankLines_no_newline)
qed

text \<open>A text with a blank line: the line feeds become one space.\<close>

theorem normalizeText_no_newline_witness:
  "normalizeText (''  Helpful   Assistant.'' @ [CHR 0x0A, CHR 0x0A] @ ''Do X  '')
     = ''helpful assistant. do x'' \<and>
   CHR 0x0A \<notin> set (normalizeText (''  Helpful   Assistant.'' @ [CHR 0x0A, CHR 0x0A] @ ''Do X  '')) \<and>
   normalizeText (normalizeText (''  Helpful   Assistant.'' @ [CHR 0x0A, CHR 0x0A] @ ''Do X  ''))
     = ''helpful assistant. do x''"
proof -
  have e: "normalizeText (''  Helpful   Assistant.'' @ [CHR 0x0A, CHR 0x0A] @ ''Do X  '')
     = ''helpful assistant. do x''"
    by code_simp
  from normalizeText_no_newline[of "''  Helpful   Assistant.'' @ [CHR 0x0A, CHR 0x0A] @ ''Do X  ''"]
  show ?thesis unfolding e by simp
qed

section \<open>Shingle vectors\<close>






section \<open>Edit distance\<close>

text \<open>
  The two-row loop computes the table of edit distances, which is symmetric in the two
  texts.
\<close>

lemma editTable_sym: "editTable s t i j = editTable t s j i"
proof (induction s t i j rule: editTable.induct)
  case (1 s t j)
  show ?case by (cases j) simp_all
next
  case (2 s t i)
  show ?case by simp
next
  case (3 s t i j)
  have "(if s ! i = t ! j then 0 else 1::nat) = (if t ! j = s ! i then 0 else 1)" by auto
  then show ?case using 3 by (simp add: min.commute)
qed

lemma fold_snoc: "fold f (xs @ [x]) a = f x (fold f xs a)"
  by simp

lemma upt_from_1_snoc: "[1 ..< Suc (Suc m)] = [1 ..< Suc m] @ [Suc m]"
  by simp

lemma levenshteinInner_prefix:
  assumes prev: "\<forall>j\<le>length t. prev ! j = editTable s t i j"
    and cur0: "cur ! 0 = Suc i" and len: "length cur = length t + 1"
  shows "m \<le> length t \<Longrightarrow>
         length (fold (levenshteinCell (s ! i) t prev) [1 ..< Suc m] cur) = length t + 1 \<and>
         (\<forall>j\<le>m. fold (levenshteinCell (s ! i) t prev) [1 ..< Suc m] cur ! j
                   = editTable s t (Suc i) j)"
proof (induction m)
  case 0
  show ?case using cur0 len by simp
next
  case (Suc m)
  define r where "r = fold (levenshteinCell (s ! i) t prev) [1 ..< Suc m] cur"
  from Suc have IH: "length r = length t + 1" "\<forall>j\<le>m. r ! j = editTable s t (Suc i) j"
    unfolding r_def by simp_all
  have step: "fold (levenshteinCell (s ! i) t prev) [1 ..< Suc (Suc m)] cur
                = levenshteinCell (s ! i) t prev (Suc m) r"
    unfolding upt_from_1_snoc r_def by (rule fold_snoc)
  have pm: "prev ! m = editTable s t i m" "prev ! Suc m = editTable s t i (Suc m)"
    using prev Suc.prems by simp_all
  have rm: "r ! m = editTable s t (Suc i) m" using IH(2) by simp
  have cell: "levenshteinCell (s ! i) t prev (Suc m) r = r[Suc m := editTable s t (Suc i) (Suc m)]"
    by (simp add: levenshteinCell_def pm rm)
  have inrange: "Suc m < length r" using IH(1) Suc.prems by simp
  have "\<forall>j\<le>Suc m. (r[Suc m := editTable s t (Suc i) (Suc m)]) ! j = editTable s t (Suc i) j"
  proof (intro allI impI)
    fix j assume "j \<le> Suc m"
    then consider "j = Suc m" | "j \<le> m" by linarith
    then show "(r[Suc m := editTable s t (Suc i) (Suc m)]) ! j = editTable s t (Suc i) j"
    proof cases
      case 1
      then show ?thesis using inrange by simp
    next
      case 2
      then show ?thesis using IH(2) by (simp add: nth_list_update)
    qed
  qed
  then show ?case unfolding step cell using IH(1) by simp
qed

lemma levenshteinInner_row:
  assumes "\<forall>j\<le>length t. prev ! j = editTable s t i j"
    and "cur ! 0 = Suc i" and "length cur = length t + 1"
  shows "length (levenshteinInner (s ! i) t prev cur) = length t + 1 \<and>
         (\<forall>j\<le>length t. levenshteinInner (s ! i) t prev cur ! j = editTable s t (Suc i) j)"
  using levenshteinInner_prefix[OF assms, of "length t"]
  by (simp add: levenshteinInner_def del: upt_Suc)

lemma levenshteinOuter_rows:
  "k \<le> length s \<Longrightarrow>
   (case fold (levenshteinRow s t) [1 ..< Suc k] ([0 ..< Suc (length t)], replicate (Suc (length t)) 0) of
      (previousRow, currentRow) \<Rightarrow>
        length previousRow = length t + 1 \<and> length currentRow = length t + 1 \<and>
        (\<forall>j\<le>length t. previousRow ! j = editTable s t k j))"
proof (induction k)
  case 0
  have "\<And>j. j \<le> length t \<Longrightarrow> [0 ..< Suc (length t)] ! j = j"
    by (metis add_0 less_Suc_eq_le nth_upt)
  then show ?case by simp
next
  case (Suc k)
  define st where
    "st = fold (levenshteinRow s t) [1 ..< Suc k] ([0 ..< Suc (length t)], replicate (Suc (length t)) 0)"
  obtain prev cur where pc: "st = (prev, cur)" by (cases st)
  from Suc have "case st of (previousRow, currentRow) \<Rightarrow>
             length previousRow = length t + 1 \<and> length currentRow = length t + 1 \<and>
             (\<forall>j\<le>length t. previousRow ! j = editTable s t k j)"
    unfolding st_def by simp
  then have IH: "length prev = length t + 1" "length cur = length t + 1"
    "\<forall>j\<le>length t. prev ! j = editTable s t k j"
    unfolding pc by simp_all
  have "fold (levenshteinRow s t) [1 ..< Suc (Suc k)]
          ([0 ..< Suc (length t)], replicate (Suc (length t)) 0)
      = levenshteinRow s t (Suc k) st"
    unfolding upt_from_1_snoc st_def by (rule fold_snoc)
  also have "\<dots> = (levenshteinInner (s ! k) t prev (cur[0 := Suc k]), prev)"
    unfolding pc by (simp add: levenshteinRow_def)
  finally have step:
    "fold (levenshteinRow s t) [1 ..< Suc (Suc k)]
          ([0 ..< Suc (length t)], replicate (Suc (length t)) 0)
      = (levenshteinInner (s ! k) t prev (cur[0 := Suc k]), prev)" .
  have "length (levenshteinInner (s ! k) t prev (cur[0 := Suc k])) = length t + 1 \<and>
         (\<forall>j\<le>length t. levenshteinInner (s ! k) t prev (cur[0 := Suc k]) ! j
            = editTable s t (Suc k) j)"
    using IH by (intro levenshteinInner_row) simp_all
  then show ?case unfolding step using IH(1) by simp
qed

lemma levenshteinDistance_editTable:
  "levenshteinDistance s t = editTable s t (length s) (length t)"
proof -
  define st where
    "st = fold (levenshteinRow s t) [1 ..< Suc (length s)]
            ([0 ..< Suc (length t)], replicate (Suc (length t)) 0)"
  obtain prev cur where pc: "st = (prev, cur)" by (cases st)
  have "case st of (previousRow, currentRow) \<Rightarrow>
             length previousRow = length t + 1 \<and> length currentRow = length t + 1 \<and>
             (\<forall>j\<le>length t. previousRow ! j = editTable s t (length s) j)"
    unfolding st_def by (rule levenshteinOuter_rows) simp
  then have "prev ! length t = editTable s t (length s) (length t)"
    unfolding pc by simp
  moreover have "levenshteinDistance s t =
      (case st of (previousRow, currentRow) \<Rightarrow> previousRow ! length t)"
    unfolding levenshteinDistance_def Let_def st_def Suc_eq_plus1 ..
  ultimately show ?thesis unfolding pc by simp
qed

lemma levenshteinDistance_sym: "levenshteinDistance s t = levenshteinDistance t s"
  by (simp add: levenshteinDistance_editTable editTable_sym[of s t])

lemma levenshteinSimilarity_unfold:
  "levenshteinSimilarity s t =
     (if s = [] \<and> t = [] then 1
      else if s = [] \<or> t = [] then 0
      else if length t > length s then levenshteinSimilarity t s
      else max 0 (1 - real (levenshteinDistance s t) / real (max (length s) (length t))))"
  by (subst levenshteinSimilarity.simps) (simp add: Let_def)

lemma levenshteinSimilarity_closed:
  "levenshteinSimilarity s t =
     (if s = [] \<and> t = [] then 1
      else if s = [] \<or> t = [] then 0
      else max 0 (1 - real (levenshteinDistance s t) / real (max (length s) (length t))))"
proof (cases "s \<noteq> [] \<and> t \<noteq> [] \<and> length t > length s")
  case True
  then have "levenshteinSimilarity s t = levenshteinSimilarity t s"
    by (subst levenshteinSimilarity_unfold) simp
  also have "\<dots> = max 0 (1 - real (levenshteinDistance t s) / real (max (length t) (length s)))"
    using True by (subst levenshteinSimilarity_unfold) simp
  finally show ?thesis
    using True by (simp add: levenshteinDistance_sym[of t s] max.commute)
next
  case False
  then show ?thesis by (subst levenshteinSimilarity_unfold) auto
qed

lemma levenshteinSimilarity_sym: "levenshteinSimilarity s t = levenshteinSimilarity t s"
  unfolding levenshteinSimilarity_closed[of s t] levenshteinSimilarity_closed[of t s]
  by (simp add: levenshteinDistance_sym[of s t] max.commute conj_commute disj_commute)

lemma levenshteinSimilarity_bounds:
  "0 \<le> levenshteinSimilarity s t \<and> levenshteinSimilarity s t \<le> 1"
proof -
  have "0 \<le> real (levenshteinDistance s t) / real (max (length s) (length t))"
    by simp
  then show ?thesis unfolding levenshteinSimilarity_closed[of s t] by auto
qed

section \<open>Cosine similarity\<close>

text \<open>
  On vectors with distinct keys the loops compute the dot products, and the quotient lies
  between 0 and 1 by the Cauchy-Schwarz inequality.
\<close>

lemma fold_magnitude:
  "fold (\<lambda>value mag. mag + value * value) xs (a::nat) = a + sum_list (map (\<lambda>v. v * v) xs)"
  by (induction xs arbitrary: a) simp_all

lemma fold_dot:
  "fold (\<lambda>(term, value) dot.
           case map_of larger term of None \<Rightarrow> dot | Some other \<Rightarrow> dot + value * other)
     smaller (a::nat)
   = a + sum_list (map (\<lambda>(term, value). value * weight larger term) smaller)"
  by (induction smaller arbitrary: a) (auto simp: weight_def split: option.splits)

lemma weight_absent: "k \<notin> fst ` set vec \<Longrightarrow> weight vec k = 0"
  by (simp add: weight_def map_of_eq_None_iff[THEN iffD2])

lemma sum_list_alist:
  "distinct (map fst vec) \<Longrightarrow>
   sum_list (map (\<lambda>(k, v). f k v) vec) = (\<Sum>k\<in>fst ` set vec. f k (weight vec k) :: nat)"
proof (induction vec)
  case Nil
  show ?case by simp
next
  case (Cons p vec)
  obtain k v where p: "p = (k, v)" by (cases p)
  from Cons.prems p have notin: "k \<notin> fst ` set vec" and d: "distinct (map fst vec)"
    by simp_all
  have same: "\<And>x. x \<in> fst ` set vec \<Longrightarrow> weight (p # vec) x = weight vec x"
    using notin p by (auto simp: weight_def)
  have "(\<Sum>x\<in>fst ` set (p # vec). f x (weight (p # vec) x))
        = f k (weight (p # vec) k) + (\<Sum>x\<in>fst ` set vec. f x (weight (p # vec) x))"
    using notin p by simp
  also have "\<dots> = f k v + (\<Sum>x\<in>fst ` set vec. f x (weight vec x))"
    using same p by (simp add: weight_def)
  also have "\<dots> = sum_list (map (\<lambda>(k, v). f k v) (p # vec))"
    using Cons.IH[OF d] p by simp
  finally show ?case by simp
qed

lemma sum_over_keys:
  assumes "distinct (map fst vec)" and "\<And>k. f k 0 = 0"
  shows "sum_list (map (\<lambda>(k, v). f k v) vec)
         = (\<Sum>k\<in>fst ` set vec \<union> fst ` set other. f k (weight vec k) :: nat)"
proof -
  have "(\<Sum>k\<in>fst ` set vec. f k (weight vec k))
        = (\<Sum>k\<in>fst ` set vec \<union> fst ` set other. f k (weight vec k))"
    by (rule sum.mono_neutral_left) (auto simp: weight_absent assms(2))
  then show ?thesis using sum_list_alist[OF assms(1), of f] by simp
qed

lemma cauchy_schwarz_step:
  fixes x y S A B :: real
  assumes "S\<^sup>2 \<le> A * B" "0 \<le> A" "0 \<le> B"
  shows "(x * y + S)\<^sup>2 \<le> (x\<^sup>2 + A) * (y\<^sup>2 + B)"
proof -
  have nn: "0 \<le> x\<^sup>2 * B + y\<^sup>2 * A" using assms(2,3) by simp
  have "(2 * x * y * S)\<^sup>2 = 4 * (x\<^sup>2 * y\<^sup>2) * S\<^sup>2"
    by (simp add: power2_eq_square)
  also have "\<dots> \<le> 4 * (x\<^sup>2 * y\<^sup>2) * (A * B)"
    using assms(1) by (intro mult_left_mono) simp_all
  also have "\<dots> \<le> 4 * (x\<^sup>2 * y\<^sup>2) * (A * B) + (x\<^sup>2 * B - y\<^sup>2 * A)\<^sup>2"
    by simp
  also have "\<dots> = (x\<^sup>2 * B + y\<^sup>2 * A)\<^sup>2"
    by (simp add: power2_eq_square algebra_simps)
  finally have "2 * x * y * S \<le> x\<^sup>2 * B + y\<^sup>2 * A"
    using nn by (rule power2_le_imp_le)
  moreover have "(x * y + S)\<^sup>2 = x\<^sup>2 * y\<^sup>2 + 2 * x * y * S + S\<^sup>2"
    by (simp add: power2_eq_square algebra_simps)
  moreover have "(x\<^sup>2 + A) * (y\<^sup>2 + B) = x\<^sup>2 * y\<^sup>2 + (x\<^sup>2 * B + y\<^sup>2 * A) + A * B"
    by (simp add: algebra_simps)
  ultimately show ?thesis using assms(1) by linarith
qed

lemma cauchy_schwarz_sum:
  fixes a b :: "'k \<Rightarrow> real"
  assumes "finite K"
  shows "(\<Sum>k\<in>K. a k * b k)\<^sup>2 \<le> (\<Sum>k\<in>K. (a k)\<^sup>2) * (\<Sum>k\<in>K. (b k)\<^sup>2)"
  using assms
proof (induction K rule: finite_induct)
  case empty
  show ?case by simp
next
  case (insert x F)
  have "(a x * b x + (\<Sum>k\<in>F. a k * b k))\<^sup>2
        \<le> ((a x)\<^sup>2 + (\<Sum>k\<in>F. (a k)\<^sup>2)) * ((b x)\<^sup>2 + (\<Sum>k\<in>F. (b k)\<^sup>2))"
    using insert.IH by (intro cauchy_schwarz_step) (simp_all add: sum_nonneg)
  then show ?case using insert.hyps by simp
qed

lemma dotProduct_sym: "dotProduct vecA vecB = dotProduct vecB vecA"
  by (simp add: dotProduct_def Un_commute mult.commute)

lemma dotProduct_loop:
  assumes "distinct (map fst vecA)"
  shows "sum_list (map (\<lambda>(term, value). value * weight vecB term) vecA) = dotProduct vecA vecB"
  unfolding dotProduct_def
  using sum_over_keys[OF assms, of "\<lambda>k v. v * weight vecB k" vecB] by simp

lemma dotProduct_self:
  assumes "distinct (map fst vec)"
  shows "sum_list (map ((\<lambda>v. v * v) \<circ> snd) vec) = dotProduct vec vec"
proof -
  have "map ((\<lambda>v. v * v) \<circ> snd) vec = map (\<lambda>(k, v). v * v) vec"
    by (simp add: case_prod_unfold)
  then show ?thesis
    unfolding dotProduct_def
    using sum_over_keys[OF assms, of "\<lambda>k v. v * v" vec] by (simp only: Un_absorb)
qed

lemma dotProduct_self_wider:
  assumes "finite S"
  shows "dotProduct vec vec = (\<Sum>k\<in>fst ` set vec \<union> S. weight vec k * weight vec k)"
  unfolding dotProduct_def
  by (rule sum.mono_neutral_left) (auto simp: weight_absent assms)

lemma cosineSimilarity_dotProduct:
  assumes dA: "distinct (map fst vecA)" and dB: "distinct (map fst vecB)"
    and nA: "vecA \<noteq> []" and nB: "vecB \<noteq> []"
  shows "cosineSimilarity vecA vecB =
     (if dotProduct vecA vecA = 0 \<or> dotProduct vecB vecB = 0 then 0
      else real (dotProduct vecA vecB) /
           sqrt (real (dotProduct vecA vecA * dotProduct vecB vecB)))"
proof -
  have dotBA: "sum_list (map (\<lambda>(term, value). value * weight vecA term) vecB)
                 = dotProduct vecA vecB"
    using dotProduct_loop[OF dB, of vecA] by (simp only: dotProduct_sym[of vecB vecA])
  show ?thesis
    using nA nB
    by (simp add: cosineSimilarity_def Let_def fold_magnitude fold_dot
          dotProduct_self[OF dA] dotProduct_self[OF dB] dotProduct_loop[OF dA] dotBA)
qed

lemma cosineSimilarity_sym:
  assumes "distinct (map fst vecA)" and "distinct (map fst vecB)"
  shows "cosineSimilarity vecA vecB = cosineSimilarity vecB vecA"
proof (cases "vecA = [] \<or> vecB = []")
  case True
  then show ?thesis by (auto simp: cosineSimilarity_def)
next
  case False
  then have "vecA \<noteq> []" "vecB \<noteq> []" by simp_all
  then show ?thesis
    unfolding cosineSimilarity_dotProduct[OF assms \<open>vecA \<noteq> []\<close> \<open>vecB \<noteq> []\<close>]
      cosineSimilarity_dotProduct[OF assms(2,1) \<open>vecB \<noteq> []\<close> \<open>vecA \<noteq> []\<close>]
    by (simp add: dotProduct_sym[of vecA vecB] mult.commute disj_commute)
qed

lemma dotProduct_cauchy_schwarz:
  "(real (dotProduct vecA vecB))\<^sup>2 \<le> real (dotProduct vecA vecA * dotProduct vecB vecB)"
proof -
  let ?K = "fst ` set vecA \<union> fst ` set vecB"
  have A: "dotProduct vecA vecA = (\<Sum>k\<in>?K. weight vecA k * weight vecA k)"
    by (rule dotProduct_self_wider) simp
  have "dotProduct vecB vecB = (\<Sum>k\<in>fst ` set vecB \<union> fst ` set vecA. weight vecB k * weight vecB k)"
    by (rule dotProduct_self_wider) simp
  then have B: "dotProduct vecB vecB = (\<Sum>k\<in>?K. weight vecB k * weight vecB k)"
    by (simp only: Un_commute)
  have "(\<Sum>k\<in>?K. real (weight vecA k) * real (weight vecB k))\<^sup>2
          \<le> (\<Sum>k\<in>?K. (real (weight vecA k))\<^sup>2) * (\<Sum>k\<in>?K. (real (weight vecB k))\<^sup>2)"
    by (rule cauchy_schwarz_sum) simp
  moreover have "real (dotProduct vecA vecB) = (\<Sum>k\<in>?K. real (weight vecA k) * real (weight vecB k))"
    by (simp add: dotProduct_def)
  moreover have "real (dotProduct vecA vecA) = (\<Sum>k\<in>?K. (real (weight vecA k))\<^sup>2)"
    unfolding A by (simp add: power2_eq_square)
  moreover have "real (dotProduct vecB vecB) = (\<Sum>k\<in>?K. (real (weight vecB k))\<^sup>2)"
    unfolding B by (simp add: power2_eq_square)
  ultimately show ?thesis by (simp only: of_nat_mult)
qed

lemma cosineSimilarity_bounds:
  assumes "distinct (map fst vecA)" and "distinct (map fst vecB)"
  shows "0 \<le> cosineSimilarity vecA vecB \<and> cosineSimilarity vecA vecB \<le> 1"
proof (cases "vecA = [] \<or> vecB = []")
  case True
  then show ?thesis by (auto simp: cosineSimilarity_def)
next
  case False
  then have ne: "vecA \<noteq> []" "vecB \<noteq> []" by simp_all
  define MA where "MA = dotProduct vecA vecA"
  define MB where "MB = dotProduct vecB vecB"
  define D where "D = dotProduct vecA vecB"
  have eq: "cosineSimilarity vecA vecB =
      (if MA = 0 \<or> MB = 0 then 0 else real D / sqrt (real (MA * MB)))"
    unfolding MA_def MB_def D_def by (rule cosineSimilarity_dotProduct[OF assms ne])
  have cs: "(real D)\<^sup>2 \<le> real (MA * MB)"
    unfolding MA_def MB_def D_def by (rule dotProduct_cauchy_schwarz)
  show ?thesis
  proof (cases "MA = 0 \<or> MB = 0")
    case True
    then show ?thesis unfolding eq by auto
  next
    case pos: False
    have le: "real D \<le> sqrt (real (MA * MB))"
      using cs by (rule real_le_rsqrt)
    have "0 < real (MA * MB)" using pos by simp
    then have sq: "0 < sqrt (real (MA * MB))" by (simp only: real_sqrt_gt_0_iff)
    have "real D / sqrt (real (MA * MB)) \<le> 1"
      using le sq by (simp only: divide_le_eq_1_pos)
    moreover have "0 \<le> real D / sqrt (real (MA * MB))"
      using sq by (intro divide_nonneg_nonneg) simp_all
    ultimately show ?thesis unfolding eq using pos by simp
  qed
qed

section \<open>The similarity score\<close>

lemma mapSet_keys:
  "map fst (mapSet k v m) = (if k \<in> fst ` set m then map fst m else map fst m @ [k])"
  by (induction m) auto

lemma increment_distinct:
  "distinct (map fst vector) \<Longrightarrow> distinct (map fst (increment key vector))"
  by (simp add: increment_def mapSet_keys)

lemma fold_increment_distinct:
  "distinct (map fst vector) \<Longrightarrow> distinct (map fst (fold (\<lambda>x. increment (f x)) xs vector))"
  by (induction xs arbitrary: vector) (simp_all add: increment_distinct)

lemma buildShingleVector_distinct: "distinct (map fst (buildShingleVector s))"
proof -
  have 1: "\<And>is ts. distinct (map fst (fold (\<lambda>i. increment (join (take SHINGLE_SIZE (drop i ts)))) is []))"
    by (rule fold_increment_distinct) simp
  have 2: "\<And>ts v. distinct (map fst v) \<Longrightarrow> distinct (map fst (fold increment ts v))"
    using fold_increment_distinct[of _ "\<lambda>x. x"] by simp
  show ?thesis
    unfolding buildShingleVector_def Let_def
    by (auto intro: 1 2)
qed

text \<open>
  C7. The similarity score is symmetric: for all texts \<open>a\<close> and \<open>b\<close>,
  \<open>calculateSimilarity a b = calculateSimilarity b a\<close>.
\<close>

theorem calculateSimilarity_symmetric:
  "calculateSimilarity a b = calculateSimilarity b a"
proof -
  have cos: "cosineSimilarity (buildShingleVector (normalizeText a)) (buildShingleVector (normalizeText b))
           = cosineSimilarity (buildShingleVector (normalizeText b)) (buildShingleVector (normalizeText a))"
    by (rule cosineSimilarity_sym) (rule buildShingleVector_distinct)+
  have lev: "levenshteinSimilarity (normalizeText a) (normalizeText b)
           = levenshteinSimilarity (normalizeText b) (normalizeText a)"
    by (rule levenshteinSimilarity_sym)
  have eq: "(normalizeText a = normalizeText b) = (normalizeText b = normalizeText a)"
    by auto
  show ?thesis
    unfolding calculateSimilarity_def Let_def cos lev eq ..
qed

text \<open>
  C8. For all texts \<open>a\<close> and \<open>b\<close> the similarity score lies between 0 and 1, and the
  score of a text with itself is 1 (the empty text included).
\<close>

theorem calculateSimilarity_bounded:
  "0 \<le> calculateSimilarity a b \<and> calculateSimilarity a b \<le> 1 \<and> calculateSimilarity a a = 1"
proof -
  have cos: "0 \<le> cosineSimilarity (buildShingleVector (normalizeText a)) (buildShingleVector (normalizeText b))
           \<and> cosineSimilarity (buildShingleVector (normalizeText a)) (buildShingleVector (normalizeText b)) \<le> 1"
    by (rule cosineSimilarity_bounds) (rule buildShingleVector_distinct)+
  have lev: "0 \<le> levenshteinSimilarity (normalizeText a) (normalizeText b)
           \<and> levenshteinSimilarity (normalizeText a) (normalizeText b) \<le> 1"
    by (rule levenshteinSimilarity_bounds)
  have "calculateSimilarity a a = 1" by (simp add: calculateSimilarity_def)
  then show ?thesis using cos lev by (auto simp: calculateSimilarity_def Let_def)
qed

text \<open>
  Two texts of three tokens that differ in the last one: the cosine of their vectors is
  2/3, above the threshold, and the edit distance 1 over 5 characters gives 4/5.
\<close>

lemma sqrt_9: "sqrt 9 = 3"
  by (rule real_sqrt_unique) simp_all

lemma exampleNear_normalized:
  "normalizeText ''a b c'' = ''a b c''" "normalizeText ''A  b d'' = ''a b d''"
  by code_simp+

lemma exampleNear_vectors:
  "buildShingleVector ''a b c'' = [(''a'', 1), (''b'', 1), (''c'', 1)]"
  "buildShingleVector ''a b d'' = [(''a'', 1), (''b'', 1), (''d'', 1)]"
  by code_simp+

lemma exampleNear_distance: "levenshteinDistance ''a b c'' ''a b d'' = 1"
  by code_simp

lemma exampleNear_cosine:
  "cosineSimilarity (buildShingleVector ''a b c'') (buildShingleVector ''a b d'') = 2 / 3"
  by (simp add: exampleNear_vectors cosineSimilarity_def sqrt_9)

lemma exampleNear_levenshtein: "levenshteinSimilarity ''a b c'' ''a b d'' = 4 / 5"
  by (simp add: levenshteinSimilarity_closed exampleNear_distance)

lemma exampleNear_similarity: "calculateSimilarity ''a b c'' ''A  b d'' = 4 / 5"
  by (simp add: calculateSimilarity_def Let_def exampleNear_normalized exampleNear_cosine
        exampleNear_levenshtein SHINGLE_THRESHOLD_def)

text \<open>The score of the two texts in either order.\<close>

theorem calculateSimilarity_symmetric_witness:
  "calculateSimilarity ''a b c'' ''A  b d'' = 4 / 5 \<and>
   calculateSimilarity ''A  b d'' ''a b c'' = 4 / 5"
  using calculateSimilarity_symmetric[of "''a b c''" "''A  b d''"] exampleNear_similarity
  by simp

text \<open>The bounds on the two texts, and the score 1 of a text and of the empty text with itself.\<close>

theorem calculateSimilarity_bounded_witness:
  "0 \<le> calculateSimilarity ''a b c'' ''A  b d'' \<and>
   calculateSimilarity ''a b c'' ''A  b d'' \<le> 1 \<and>
   calculateSimilarity ''a b c'' ''a b c'' = 1 \<and> calculateSimilarity [] [] = 1"
  using calculateSimilarity_bounded[of "''a b c''" "''A  b d''"]
    calculateSimilarity_bounded[of "[]" "[]"]
  by simp

end
